theory Spec2Isabelle
  imports Main "HOL-Library.Word"
begin

section \<open>Values of the source language\<close>

text \<open>
  The program is JavaScript. Its Numbers are modelled as \<^typ>\<open>int\<close>: every Number the
  transcoding helper computes with is integer valued (array lengths, sample values read
  from an \<open>Int16Array\<close>, a sample rate parsed from decimal digits), and on integers below
  \<open>2 ^ 53\<close> the arithmetic of the source (\<open>+\<close>, \<open>*\<close>, \<open>16 / 8\<close>) is exact.
  A string is the list of its UTF-16 code units, a byte is an \<^typ>\<open>8 word\<close>, and an
  exception is a value of type \<open>error\<close> on the left of a sum.
\<close>

datatype error = RangeError | InvalidCharacterError | TypeError

type_synonym byte = "8 word"

type_synonym codeunit = "16 word"

type_synonym jsstring = "codeunit list"

text \<open>A string literal of the source, as code units.\<close>

definition js :: "string \<Rightarrow> jsstring" where
  "js s = map of_char s"

text \<open>Sequencing of statements that may throw: the first exception ends the run.\<close>

definition andThen :: "error + 'a \<Rightarrow> ('a \<Rightarrow> error + 'b) \<Rightarrow> error + 'b" where
  "andThen m f = (case m of Inl e \<Rightarrow> Inl e | Inr x \<Rightarrow> f x)"

section \<open>DataView\<close>

text \<open>
  The integer conversions that the setters of \<open>DataView\<close> apply to their value argument
  (ECMAScript \<open>ToUint8\<close>, \<open>ToUint16\<close>, \<open>ToInt16\<close>, \<open>ToUint32\<close>), on integer arguments.
\<close>

definition ToUint8 :: "int \<Rightarrow> int" where
  "ToUint8 v = v mod 2 ^ 8"

definition ToUint16 :: "int \<Rightarrow> int" where
  "ToUint16 v = v mod 2 ^ 16"

definition ToInt16 :: "int \<Rightarrow> int" where
  "ToInt16 v =
     (let int16bit = v mod 2 ^ 16
      in if int16bit \<ge> 2 ^ 15 then int16bit - 2 ^ 16 else int16bit)"

definition ToUint32 :: "int \<Rightarrow> int" where
  "ToUint32 v = v mod 2 ^ 32"

text \<open>
  The \<open>n\<close>-byte binary (two's complement) encoding of an integer, least significant
  byte first, and ECMAScript's \<open>NumericToRawBytes\<close> with its byte-order flag.
\<close>

fun rawBytes :: "nat \<Rightarrow> int \<Rightarrow> byte list" where
  "rawBytes 0 v = []"
| "rawBytes (Suc n) v = word_of_int v # rawBytes n (v div 256)"

definition NumericToRawBytes :: "nat \<Rightarrow> int \<Rightarrow> bool \<Rightarrow> byte list" where
  "NumericToRawBytes n v isLittleEndian =
     (if isLittleEndian then rawBytes n v else rev (rawBytes n v))"

text \<open>
  A \<open>DataView\<close> over a whole \<open>ArrayBuffer\<close> is modelled by the buffer's bytes; a setter
  returns the updated bytes. \<open>SetViewValue\<close> throws a \<open>RangeError\<close> when the bytes to
  store do not fit between the index and the end of the view. \<open>new ArrayBuffer(len)\<close> is
  \<open>len\<close> zero bytes; the allocation is taken to succeed, since running out of memory
  is a failure of the runtime and not of the program.
\<close>

definition ArrayBuffer :: "nat \<Rightarrow> byte list" where
  "ArrayBuffer len = replicate len 0"

definition SetViewValue :: "byte list \<Rightarrow> nat \<Rightarrow> byte list \<Rightarrow> error + byte list" where
  "SetViewValue view getIndex bs =
     (if getIndex + length bs > length view then Inl RangeError
      else Inr (take getIndex view @ bs @ drop (getIndex + length bs) view))"

definition setUint8 :: "byte list \<Rightarrow> nat \<Rightarrow> int \<Rightarrow> error + byte list" where
  "setUint8 view byteOffset v =
     SetViewValue view byteOffset (NumericToRawBytes 1 (ToUint8 v) True)"

definition setUint16 :: "byte list \<Rightarrow> nat \<Rightarrow> int \<Rightarrow> bool \<Rightarrow> error + byte list" where
  "setUint16 view byteOffset v littleEndian =
     SetViewValue view byteOffset (NumericToRawBytes 2 (ToUint16 v) littleEndian)"

definition setInt16 :: "byte list \<Rightarrow> nat \<Rightarrow> int \<Rightarrow> bool \<Rightarrow> error + byte list" where
  "setInt16 view byteOffset v littleEndian =
     SetViewValue view byteOffset (NumericToRawBytes 2 (ToInt16 v) littleEndian)"

definition setUint32 :: "byte list \<Rightarrow> nat \<Rightarrow> int \<Rightarrow> bool \<Rightarrow> error + byte list" where
  "setUint32 view byteOffset v littleEndian =
     SetViewValue view byteOffset (NumericToRawBytes 4 (ToUint32 v) littleEndian)"

section \<open>The encoder\<close>

text \<open>
  \<open>writeString\<close>: the loop \<open>for (let i = 0; i < string.length; i++)\<close> storing
  \<open>string.charCodeAt(i)\<close> at \<open>offset + i\<close>.
\<close>

function writeString_loop :: "byte list \<Rightarrow> nat \<Rightarrow> jsstring \<Rightarrow> nat \<Rightarrow> error + byte list" where
  "writeString_loop view offset string i =
     (if i < length string
      then andThen (setUint8 view (offset + i) (uint (string ! i)))
             (\<lambda>view. writeString_loop view offset string (i + 1))
      else Inr view)"
  by pat_completeness auto
termination
  by (relation "measure (\<lambda>(view, offset, string, i). length string - i)") auto

declare writeString_loop.simps [simp del]

definition writeString :: "byte list \<Rightarrow> nat \<Rightarrow> jsstring \<Rightarrow> error + byte list" where
  "writeString view offset string = writeString_loop view offset string 0"

text \<open>
  The loop of \<open>pcmToWav\<close> that writes the samples: \<open>offset\<close> starts at 44 and advances
  by 2, \<open>i\<close> runs over the indices of \<open>pcmData\<close>.
\<close>

function pcm_loop :: "int list \<Rightarrow> byte list \<Rightarrow> nat \<Rightarrow> nat \<Rightarrow> error + byte list" where
  "pcm_loop pcmData view offset i =
     (if i < length pcmData
      then andThen (setInt16 view offset (pcmData ! i) True)
             (\<lambda>view. pcm_loop pcmData view (offset + 2) (i + 1))
      else Inr view)"
  by pat_completeness auto
termination
  by (relation "measure (\<lambda>(pcmData, view, offset, i). length pcmData - i)") auto

declare pcm_loop.simps [simp del]

text \<open>
  The \<open>Blob\<close> that is returned: a copy of the buffer's bytes and a media type. In
  \<open>pcmToWav\<close> the quotient \<open>bitsPerSample / 8\<close> of the source is \<open>16 / 8\<close>, which is exactly 2.
\<close>

datatype blob = Blob (blob_bytes: "byte list") (blob_type: jsstring)

definition pcmToWav :: "int list \<Rightarrow> int \<Rightarrow> error + blob" where
  "pcmToWav pcmData sampleRate =
     (let numChannels = 1;
          bitsPerSample = 16;
          byteRate = sampleRate * numChannels * (bitsPerSample div 8);
          blockAlign = numChannels * (bitsPerSample div 8);
          buffer = ArrayBuffer (44 + length pcmData * 2)
      in andThen (writeString buffer 0 (js ''RIFF'')) (\<lambda>view.
         andThen (setUint32 view 4 (36 + int (length pcmData) * 2) True) (\<lambda>view.
         andThen (writeString view 8 (js ''WAVE'')) (\<lambda>view.
         andThen (writeString view 12 (js ''fmt '')) (\<lambda>view.
         andThen (setUint32 view 16 16 True) (\<lambda>view.
         andThen (setUint16 view 20 1 True) (\<lambda>view.
         andThen (setUint16 view 22 numChannels True) (\<lambda>view.
         andThen (setUint32 view 24 sampleRate True) (\<lambda>view.
         andThen (setUint32 view 28 byteRate True) (\<lambda>view.
         andThen (setUint16 view 32 blockAlign True) (\<lambda>view.
         andThen (setUint16 view 34 bitsPerSample True) (\<lambda>view.
         andThen (writeString view 36 (js ''data'')) (\<lambda>view.
         andThen (setUint32 view 40 (int (length pcmData) * 2) True) (\<lambda>view.
         andThen (pcm_loop pcmData view 44 0) (\<lambda>view.
         Inr (Blob view (js ''audio/wav'')))))))))))))))))"

text \<open>The bytes of the returned \<open>Blob\<close> (empty if the encoder threw).\<close>

definition wav_bytes :: "int list \<Rightarrow> int \<Rightarrow> byte list" where
  "wav_bytes pcmData sampleRate =
     (case pcmToWav pcmData sampleRate of Inl e \<Rightarrow> [] | Inr b \<Rightarrow> blob_bytes b)"

section \<open>Reading the container\<close>

text \<open>
  The getters of \<open>DataView\<close> (ECMAScript \<open>GetViewValue\<close> and \<open>RawBytesToNumeric\<close>),
  the reading counterparts of the setters above. The encoder does not call them; they
  state what a field of the container holds when it is read back as an unsigned or
  signed little-endian integer.
\<close>

fun numericValue :: "byte list \<Rightarrow> int" where
  "numericValue [] = 0"
| "numericValue (b # bs) = uint b + 256 * numericValue bs"

definition GetViewValue :: "byte list \<Rightarrow> nat \<Rightarrow> nat \<Rightarrow> error + byte list" where
  "GetViewValue view getIndex n =
     (if getIndex + n > length view then Inl RangeError
      else Inr (take n (drop getIndex view)))"

definition RawBytesToUint :: "byte list \<Rightarrow> bool \<Rightarrow> int" where
  "RawBytesToUint bs isLittleEndian = numericValue (if isLittleEndian then bs else rev bs)"

definition RawBytesToInt :: "byte list \<Rightarrow> bool \<Rightarrow> int" where
  "RawBytesToInt bs isLittleEndian =
     (let u = RawBytesToUint bs isLittleEndian
      in if u \<ge> 2 ^ (8 * length bs - 1) then u - 2 ^ (8 * length bs) else u)"

definition getUint16 :: "byte list \<Rightarrow> nat \<Rightarrow> bool \<Rightarrow> error + int" where
  "getUint16 view byteOffset littleEndian =
     andThen (GetViewValue view byteOffset 2) (\<lambda>bs. Inr (RawBytesToUint bs littleEndian))"

definition getInt16 :: "byte list \<Rightarrow> nat \<Rightarrow> bool \<Rightarrow> error + int" where
  "getInt16 view byteOffset littleEndian =
     andThen (GetViewValue view byteOffset 2) (\<lambda>bs. Inr (RawBytesToInt bs littleEndian))"

definition getUint32 :: "byte list \<Rightarrow> nat \<Rightarrow> bool \<Rightarrow> error + int" where
  "getUint32 view byteOffset littleEndian =
     andThen (GetViewValue view byteOffset 4) (\<lambda>bs. Inr (RawBytesToUint bs littleEndian))"

definition ascii :: "string \<Rightarrow> byte list" where
  "ascii s = map of_char s"

text \<open>
  A sequence of bytes read as signed 16-bit little-endian integers, two bytes each; a
  trailing single byte is not a sample.
\<close>

fun samplesLE :: "byte list \<Rightarrow> int list" where
  "samplesLE (lo # hi # rest) = RawBytesToInt [lo, hi] True # samplesLE rest"
| "samplesLE rest = []"

section \<open>The caller: from the response of the speech service to the encoder\<close>

text \<open>
  \<open>handleTtsClick\<close> takes the base64 audio data and the media type out of the response
  and, when the media type starts with \<open>audio/L16\<close>, converts the data to a WAV \<open>Blob\<close>.
\<close>

subsection \<open>The sample rate in the media type\<close>

text \<open>
  \<open>mimeType.match\<close> with the regular expression of the source, \<open>rate=\<close> followed by a
  captured run of one or more decimal digits. The expression is tried at the start
  indices 0, 1, 2 and so on; it matches where the five code units \<open>rate=\<close> are followed
  by at least one decimal digit, and the greedy quantifier captures the whole run of
  digits. The result is the capture of the first match, or \<open>None\<close> for JavaScript's
  \<open>null\<close>.
\<close>

definition isDigit :: "codeunit \<Rightarrow> bool" where
  "isDigit c = (48 \<le> c \<and> c \<le> 57)"

fun match_rate :: "jsstring \<Rightarrow> jsstring option" where
  "match_rate [] = None"
| "match_rate (c # cs) =
     (let digits = takeWhile isDigit (drop 5 (c # cs))
      in if take 5 (c # cs) = js ''rate='' \<and> digits \<noteq> [] then Some digits
         else match_rate cs)"

text \<open>
  \<open>parseInt(digits, 10)\<close> on a string of decimal digits, which is all the capture can
  be. ECMAScript takes the integer that the digits denote in radix 10 (\<open>mathInt\<close>) and
  returns the Number value for it, a double: the integer itself up to \<open>2 ^ 53\<close>, beyond
  that the nearest value with a significand of 53 bits, a tie going to the even
  significand, and \<open>Infinity\<close> when that value reaches \<open>2 ^ 1024\<close>. \<open>exponent_of n\<close> is the
  number of low bits of \<open>n\<close> that do not fit into the significand.

  \<open>Infinity\<close> is no integer. It is represented by \<open>2 ^ 1024\<close>, the first integer beyond
  the finite Numbers: the encoder uses its sample rate only in \<open>sampleRate * 2\<close> and in
  \<open>setUint32\<close>, which stores 0 for \<open>Infinity\<close> and, as a multiple of \<open>2 ^ 32\<close>, for its
  representative. (Where a string has more than 20 significant digits, ECMAScript lets
  an implementation replace the later ones by 0 before it rounds; the model rounds the
  integer as written.)
\<close>

definition mathInt :: "jsstring \<Rightarrow> int" where
  "mathInt digits = foldl (\<lambda>n c. n * 10 + (uint c - 48)) 0 digits"

function exponent_of :: "int \<Rightarrow> nat" where
  "exponent_of n = (if n < 2 ^ 53 then 0 else Suc (exponent_of (n div 2)))"
  by pat_completeness auto
termination
  by (relation "measure nat") auto

declare exponent_of.simps [simp del]

definition Infinity :: int where
  "Infinity = 2 ^ 1024"

definition numberValue :: "int \<Rightarrow> int" where
  "numberValue n =
     (let e = exponent_of n;
          significand = n div 2 ^ e;
          rest = n mod 2 ^ e;
          rounded = (if 2 * rest > 2 ^ e \<or> (2 * rest = 2 ^ e \<and> odd significand)
                     then significand + 1 else significand) * 2 ^ e
      in if rounded \<ge> 2 ^ 1024 then Infinity else rounded)"

definition parseInt10 :: "jsstring \<Rightarrow> int" where
  "parseInt10 digits = numberValue (mathInt digits)"

text \<open>\<open>rateMatch ? parseInt(rateMatch[1], 10) : 24000\<close>\<close>

definition sampleRate_of :: "jsstring \<Rightarrow> int" where
  "sampleRate_of mimeType =
     (case match_rate mimeType of Some digits \<Rightarrow> parseInt10 digits | None \<Rightarrow> 24000)"

subsection \<open>Decoding the base64 data\<close>

text \<open>
  The platform's \<open>atob\<close>, which is the forgiving-base64 decode of the WHATWG Infra
  standard: ASCII whitespace is removed; if the length is then a multiple of 4, one or
  two trailing \<open>=\<close> are removed; a length of 1 modulo 4 or a code unit outside the base64
  alphabet throws \<open>InvalidCharacterError\<close>; every four sextets give three bytes, and a
  final group of three or two sextets gives two bytes or one. The result is a string with
  one code unit, below 256, for each decoded byte.
\<close>

definition isAsciiWhitespace :: "codeunit \<Rightarrow> bool" where
  "isAsciiWhitespace c = (c = 9 \<or> c = 10 \<or> c = 12 \<or> c = 13 \<or> c = 32)"

definition base64_index :: "codeunit \<Rightarrow> nat option" where
  "base64_index c =
     (if 65 \<le> c \<and> c \<le> 90 then Some (unat c - 65)
      else if 97 \<le> c \<and> c \<le> 122 then Some (unat c - 71)
      else if 48 \<le> c \<and> c \<le> 57 then Some (unat c + 4)
      else if c = 43 then Some 62
      else if c = 47 then Some 63
      else None)"

fun decode_groups :: "nat list \<Rightarrow> nat list" where
  "decode_groups (a # b # c # d # rest) =
     (let n = ((a * 64 + b) * 64 + c) * 64 + d
      in [n div 65536, n div 256 mod 256, n mod 256] @ decode_groups rest)"
| "decode_groups [a, b, c] =
     (let n = ((a * 64 + b) * 64 + c) div 4 in [n div 256, n mod 256])"
| "decode_groups [a, b] = [(a * 64 + b) div 16]"
| "decode_groups rest = []"

definition strip_padding :: "jsstring \<Rightarrow> jsstring" where
  "strip_padding data =
     (if length data mod 4 = 0 \<and> data \<noteq> [] \<and> last data = 61
      then (if butlast data \<noteq> [] \<and> last (butlast data) = 61 then butlast (butlast data)
            else butlast data)
      else data)"

definition atob :: "jsstring \<Rightarrow> error + jsstring" where
  "atob data =
     (let data = strip_padding (filter (\<lambda>c. \<not> isAsciiWhitespace c) data)
      in if length data mod 4 = 1 then Inl InvalidCharacterError
         else (case those (map base64_index data) of
                 None \<Rightarrow> Inl InvalidCharacterError
               | Some sextets \<Rightarrow> Inr (map of_nat (decode_groups sextets))))"

text \<open>
  \<open>base64ToArrayBuffer\<close>: a \<open>Uint8Array\<close> as long as the decoded string, filled by the loop
  \<open>bytes[i] = binaryString.charCodeAt(i)\<close>; storing into a \<open>Uint8Array\<close> applies \<open>ToUint8\<close>.
\<close>

function fill_loop :: "byte list \<Rightarrow> jsstring \<Rightarrow> nat \<Rightarrow> byte list" where
  "fill_loop bytes binaryString i =
     (if i < length binaryString
      then fill_loop (bytes[i := word_of_int (ToUint8 (uint (binaryString ! i)))]) binaryString (i + 1)
      else bytes)"
  by pat_completeness auto
termination
  by (relation "measure (\<lambda>(bytes, binaryString, i). length binaryString - i)") auto

declare fill_loop.simps [simp del]

definition base64ToArrayBuffer :: "jsstring \<Rightarrow> error + byte list" where
  "base64ToArrayBuffer base64 =
     andThen (atob base64) (\<lambda>binaryString.
       let len = length binaryString;
           bytes = replicate len 0
       in Inr (fill_loop bytes binaryString 0))"

text \<open>
  \<open>new Int16Array(pcmData)\<close> on an \<open>ArrayBuffer\<close>: a \<open>RangeError\<close> when the byte length is
  not a multiple of the element size 2, otherwise a view of \<open>byteLength / 2\<close> elements.
  An element is read in the byte order of the platform, taken to be little-endian.
\<close>

definition new_Int16Array :: "byte list \<Rightarrow> error + int list" where
  "new_Int16Array buffer =
     (if length buffer mod 2 \<noteq> 0 then Inl RangeError else Inr (samplesLE buffer))"

text \<open>
  The branch of \<open>handleTtsClick\<close> after the response has arrived. A missing field of the
  response is \<open>None\<close>; a string is truthy when it is not empty. An exception thrown by
  the conversion is caught by the surrounding \<open>try\<close> and logged; otherwise the \<open>Blob\<close> is
  handed to the audio element.
\<close>

datatype outcome = Played blob | NoValidAudio | Caught error

definition startsWith :: "jsstring \<Rightarrow> jsstring \<Rightarrow> bool" where
  "startsWith string searchString = (take (length searchString) string = searchString)"

definition tts_audio :: "jsstring option \<Rightarrow> jsstring option \<Rightarrow> outcome" where
  "tts_audio audioData mimeType =
     (case (audioData, mimeType) of
        (Some audioData, Some mimeType) \<Rightarrow>
          if audioData \<noteq> [] \<and> mimeType \<noteq> [] \<and> startsWith mimeType (js ''audio/L16'')
          then (let sampleRate = sampleRate_of mimeType
                in case andThen (base64ToArrayBuffer audioData) (\<lambda>pcmData.
                        andThen (new_Int16Array pcmData) (\<lambda>pcm16.
                        pcmToWav pcm16 sampleRate)) of
                     Inl e \<Rightarrow> Caught e
                   | Inr wavBlob \<Rightarrow> Played wavBlob)
          else NoValidAudio
      | _ \<Rightarrow> NoValidAudio)"

section \<open>The encoder on a heap of objects\<close>

text \<open>
  To state that the encoder leaves its argument alone, the same function once more with
  the objects it handles in an explicit heap: a list of objects, a reference being an
  index. \<open>pcmData\<close> is a reference to an array of Numbers; \<open>new ArrayBuffer\<close> appends a
  fresh buffer, and the \<open>DataView\<close> on it is that buffer's reference. Every read of
  \<open>pcmData.length\<close> and \<open>pcmData[i]\<close> and every write through the view goes to the heap as
  it is at that moment. Using a reference for an object of the other kind is a
  \<open>TypeError\<close>. \<open>writeString\<close> gets the view only, so it runs on the bytes of the view's
  buffer.
\<close>

datatype obj = ArrayBufferObj "byte list" | NumberArray "int list"

type_synonym heap = "obj list"

definition heap_array :: "heap \<Rightarrow> nat \<Rightarrow> error + int list" where
  "heap_array h r =
     (if r < length h
      then (case h ! r of NumberArray xs \<Rightarrow> Inr xs | ArrayBufferObj bytes \<Rightarrow> Inl TypeError)
      else Inl TypeError)"

definition heap_buffer :: "heap \<Rightarrow> nat \<Rightarrow> error + byte list" where
  "heap_buffer h r =
     (if r < length h
      then (case h ! r of ArrayBufferObj bytes \<Rightarrow> Inr bytes | NumberArray xs \<Rightarrow> Inl TypeError)
      else Inl TypeError)"

definition heap_view_set :: "heap \<Rightarrow> nat \<Rightarrow> (byte list \<Rightarrow> error + byte list) \<Rightarrow> error + heap" where
  "heap_view_set h view setter =
     andThen (heap_buffer h view) (\<lambda>bytes.
     andThen (setter bytes) (\<lambda>bytes'.
     Inr (h[view := ArrayBufferObj bytes'])))"

function heap_pcm_loop :: "heap \<Rightarrow> nat \<Rightarrow> nat \<Rightarrow> nat \<Rightarrow> nat \<Rightarrow> error + heap" where
  "heap_pcm_loop h pcmData view offset i =
     (case heap_array h pcmData of
        Inl e \<Rightarrow> Inl e
      | Inr xs \<Rightarrow>
          if i < length xs
          then (case heap_view_set h view (\<lambda>bytes. setInt16 bytes offset (xs ! i) True) of
                  Inl e \<Rightarrow> Inl e
                | Inr h' \<Rightarrow> heap_pcm_loop h' pcmData view (offset + 2) (i + 1))
          else Inr h)"
  by pat_completeness auto
termination
proof (relation "measure (\<lambda>(h, pcmData, view, offset, i).
          case heap_array h pcmData of Inl e \<Rightarrow> 0 | Inr xs \<Rightarrow> length xs - i)")
  show "wf (measure (\<lambda>(h, pcmData, view, offset, i).
          case heap_array h pcmData of Inl e \<Rightarrow> 0 | Inr xs \<Rightarrow> length xs - i))"
    by simp
next
  fix h pcmData view offset i xs h'
  assume "heap_array h pcmData = Inr xs" "i < length xs"
    "heap_view_set h view (\<lambda>bytes. setInt16 bytes offset (xs ! i) True) = Inr h'"
  then show "((h', pcmData, view, offset + 2, i + 1), (h, pcmData, view, offset, i))
        \<in> measure (\<lambda>(h, pcmData, view, offset, i).
          case heap_array h pcmData of Inl e \<Rightarrow> 0 | Inr xs \<Rightarrow> length xs - i)"
    by (auto simp add: heap_view_set_def heap_buffer_def heap_array_def andThen_def
        nth_list_update split: if_splits sum.splits obj.splits)
qed

declare heap_pcm_loop.simps [simp del]

definition heap_pcmToWav :: "heap \<Rightarrow> nat \<Rightarrow> int \<Rightarrow> error + (heap \<times> blob)" where
  "heap_pcmToWav h pcmData sampleRate =
     (let numChannels = 1;
          bitsPerSample = 16;
          byteRate = sampleRate * numChannels * (bitsPerSample div 8);
          blockAlign = numChannels * (bitsPerSample div 8)
      in andThen (heap_array h pcmData) (\<lambda>xs.
         let view = length h;
             h = h @ [ArrayBufferObj (ArrayBuffer (44 + length xs * 2))]
         in
         andThen (heap_view_set h view (\<lambda>bytes. writeString bytes 0 (js ''RIFF''))) (\<lambda>h.
         andThen (heap_array h pcmData) (\<lambda>xs.
         andThen (heap_view_set h view (\<lambda>bytes. setUint32 bytes 4 (36 + int (length xs) * 2) True)) (\<lambda>h.
         andThen (heap_view_set h view (\<lambda>bytes. writeString bytes 8 (js ''WAVE''))) (\<lambda>h.
         andThen (heap_view_set h view (\<lambda>bytes. writeString bytes 12 (js ''fmt ''))) (\<lambda>h.
         andThen (heap_view_set h view (\<lambda>bytes. setUint32 bytes 16 16 True)) (\<lambda>h.
         andThen (heap_view_set h view (\<lambda>bytes. setUint16 bytes 20 1 True)) (\<lambda>h.
         andThen (heap_view_set h view (\<lambda>bytes. setUint16 bytes 22 numChannels True)) (\<lambda>h.
         andThen (heap_view_set h view (\<lambda>bytes. setUint32 bytes 24 sampleRate True)) (\<lambda>h.
         andThen (heap_view_set h view (\<lambda>bytes. setUint32 bytes 28 byteRate True)) (\<lambda>h.
         andThen (heap_view_set h view (\<lambda>bytes. setUint16 bytes 32 blockAlign True)) (\<lambda>h.
         andThen (heap_view_set h view (\<lambda>bytes. setUint16 bytes 34 bitsPerSample True)) (\<lambda>h.
         andThen (heap_view_set h view (\<lambda>bytes. writeString bytes 36 (js ''data''))) (\<lambda>h.
         andThen (heap_array h pcmData) (\<lambda>xs.
         andThen (heap_view_set h view (\<lambda>bytes. setUint32 bytes 40 (int (length xs) * 2) True)) (\<lambda>h.
         andThen (heap_pcm_loop h pcmData view 44 0) (\<lambda>h.
         andThen (heap_buffer h view) (\<lambda>bytes.
         Inr (h, Blob bytes (js ''audio/wav'')))))))))))))))))))))"

section \<open>The companion decoder\<close>

text \<open>
  Modelled from the spec: the decoding operation (container bytes to samples and sample
  rate), which the repository does not contain; the specification recommends it for
  round-trip testing. It parses the header for the sample rate, the unsigned 32-bit
  little-endian integer at bytes 24 to 27, and extracts the bytes from offset 44 onward
  as signed 16-bit little-endian samples. Fewer than 44 bytes are no container.
\<close>

definition wavToPcm :: "byte list \<Rightarrow> error + (int list \<times> int)" where
  "wavToPcm bytes =
     (if length bytes < 44 then Inl RangeError
      else andThen (getUint32 bytes 24 True) (\<lambda>sampleRate.
           Inr (samplesLE (drop 44 bytes), sampleRate)))"

section \<open>Auxiliary notions for the statements\<close>

text \<open>
  The pattern \<open>rate=<digits>\<close> occurs at index \<open>i\<close> of a string: the five code units from
  \<open>i\<close> are \<open>rate=\<close> and a decimal digit follows them.
\<close>

definition has_rate_at :: "jsstring \<Rightarrow> nat \<Rightarrow> bool" where
  "has_rate_at mimeType i =
     (take 5 (drop i mimeType) = js ''rate='' \<and>
      (case drop 5 (drop i mimeType) of [] \<Rightarrow> False | d # rest \<Rightarrow> isDigit d))"

text \<open>
  The decimal integer that a sequence of digits denotes: the digit at index \<open>k\<close> of \<open>n\<close>
  digits counts \<open>10 ^ (n - 1 - k)\<close> times. The digit of a code unit is its distance from
  the code unit 48 of the character \<open>0\<close>.
\<close>

definition digitValue :: "codeunit \<Rightarrow> int" where
  "digitValue c = uint c - 48"

definition decimal_value :: "int list \<Rightarrow> int" where
  "decimal_value ds = (\<Sum>k<length ds. ds ! k * 10 ^ (length ds - 1 - k))"

text \<open>
  The thirteen fields that the statements of \<open>pcmToWav\<close> before the sample loop
  write, in the order of their offsets, and a buffer of zero bytes.
\<close>

definition zeros :: "nat \<Rightarrow> byte list" where
  "zeros k = replicate k 0"

definition riff_fields :: "nat \<Rightarrow> int \<Rightarrow> byte list list" where
  "riff_fields n sampleRate =
     [[82, 73, 70, 70], rawBytes 4 (ToUint32 (36 + int n * 2)),
      [87, 65, 86, 69], [102, 109, 116, 32],
      rawBytes 4 (ToUint32 16), rawBytes 2 (ToUint16 1), rawBytes 2 (ToUint16 1),
      rawBytes 4 (ToUint32 sampleRate), rawBytes 4 (ToUint32 (sampleRate * 2)),
      rawBytes 2 (ToUint16 2), rawBytes 2 (ToUint16 16),
      [100, 97, 116, 97], rawBytes 4 (ToUint32 (int n * 2))]"

definition riff_header :: "nat \<Rightarrow> int \<Rightarrow> byte list" where
  "riff_header n sampleRate = concat (riff_fields n sampleRate)"

section \<open>What the loops compute\<close>

lemma writeString_loop_eq:
  "i \<le> length string \<Longrightarrow> offset + length string \<le> length view \<Longrightarrow>
   writeString_loop view offset string i =
     Inr (take (offset + i) view @ map (\<lambda>c. word_of_int (ToUint8 (uint c))) (drop i string)
          @ drop (offset + length string) view)"
proof (induction view offset string i rule: writeString_loop.induct)
  case (1 view offset string i)
  show ?case
  proof (cases "i < length string")
    case False
    with "1.prems" have "i = length string" by simp
    then show ?thesis by (subst writeString_loop.simps) simp
  next
    case True
    define b :: byte where "b = word_of_int (ToUint8 (uint (string ! i)))"
    define view' where "view' = take (offset + i) view @ [b] @ drop (offset + i + 1) view"
    have step: "setUint8 view (offset + i) (uint (string ! i)) = Inr view'"
      using True "1.prems"
      by (simp add: setUint8_def SetViewValue_def NumericToRawBytes_def view'_def b_def)
    have len: "length view' = length view"
      using True "1.prems" by (simp add: view'_def)
    have ih: "writeString_loop view' offset string (i + 1) =
       Inr (take (offset + (i + 1)) view' @ map (\<lambda>c. word_of_int (ToUint8 (uint c))) (drop (i + 1) string)
          @ drop (offset + length string) view')"
      using "1.IH" [OF True, of view'] True "1.prems" len by simp
    have t: "take (offset + (i + 1)) view' = take (offset + i) view @ [b]"
      using True "1.prems" by (simp add: view'_def)
    have d: "drop (offset + length string) view' = drop (offset + length string) view"
    proof -
      define m where "m = length string - (i + 1)"
      have m: "offset + length string = (offset + i + 1) + m"
        using True by (simp add: m_def)
      have "drop ((offset + i + 1) + m) view' = drop m (drop (offset + i + 1) view)"
        using True "1.prems" by (simp add: view'_def)
      also have "\<dots> = drop ((offset + i + 1) + m) view"
        by (simp add: add.commute)
      finally show ?thesis by (simp only: m)
    qed
    have c: "drop i string = string ! i # drop (i + 1) string"
      using True by (simp add: Cons_nth_drop_Suc)
    show ?thesis
      apply (subst writeString_loop.simps)
      apply (simp only: True if_True step andThen_def sum.case ih t d)
      apply (simp add: c b_def)
      done
  qed
qed

lemma pcm_loop_eq:
  "i \<le> length pcmData \<Longrightarrow> offset + 2 * (length pcmData - i) \<le> length view \<Longrightarrow>
   pcm_loop pcmData view offset i =
     Inr (take offset view @ concat (map (\<lambda>v. rawBytes 2 (ToInt16 v)) (drop i pcmData))
          @ drop (offset + 2 * (length pcmData - i)) view)"
proof (induction pcmData view offset i rule: pcm_loop.induct)
  case (1 pcmData view offset i)
  show ?case
  proof (cases "i < length pcmData")
    case False
    with "1.prems" have "i = length pcmData" by simp
    then show ?thesis by (subst pcm_loop.simps) simp
  next
    case True
    define bs where "bs = rawBytes 2 (ToInt16 (pcmData ! i))"
    define view' where "view' = take offset view @ bs @ drop (offset + 2) view"
    have lbs: "length bs = 2" by (simp add: bs_def numeral_2_eq_2)
    have step: "setInt16 view offset (pcmData ! i) True = Inr view'"
      using True "1.prems"
      by (simp add: setInt16_def SetViewValue_def NumericToRawBytes_def view'_def bs_def [symmetric] lbs)
    have len: "length view' = length view"
      using True "1.prems" by (simp add: view'_def lbs)
    have ih: "pcm_loop pcmData view' (offset + 2) (i + 1) =
       Inr (take (offset + 2) view' @ concat (map (\<lambda>v. rawBytes 2 (ToInt16 v)) (drop (i + 1) pcmData))
          @ drop (offset + 2 + 2 * (length pcmData - (i + 1))) view')"
      using "1.IH" [OF True, of view'] True "1.prems" len by simp
    have t: "take (offset + 2) view' = take offset view @ bs"
      using True "1.prems" by (simp add: view'_def lbs)
    have e: "offset + 2 * (length pcmData - i) = offset + 2 + 2 * (length pcmData - (i + 1))"
      using True by arith
    have d: "drop (offset + 2 + 2 * (length pcmData - (i + 1))) view' =
             drop (offset + 2 * (length pcmData - i)) view"
    proof -
      have "drop (offset + 2 + 2 * (length pcmData - (i + 1))) view' =
            drop (2 * (length pcmData - (i + 1))) (drop (offset + 2) view)"
        using True "1.prems" by (simp add: view'_def lbs)
      also have "\<dots> = drop (offset + 2 + 2 * (length pcmData - (i + 1))) view"
        by (simp add: add.commute)
      finally show ?thesis by (simp only: e)
    qed
    have c: "drop i pcmData = pcmData ! i # drop (i + 1) pcmData"
      using True by (simp add: Cons_nth_drop_Suc)
    show ?thesis
      apply (subst pcm_loop.simps)
      apply (simp only: True if_True step andThen_def sum.case ih t d)
      apply (simp add: c bs_def)
      done
  qed
qed

lemma length_rawBytes [simp]: "length (rawBytes n v) = n"
  by (induction n arbitrary: v) simp_all

lemma SetViewValue_zeros:
  "length P = off \<Longrightarrow> length bs \<le> k \<Longrightarrow>
   SetViewValue (P @ zeros (k + m)) off bs = Inr ((P @ bs) @ zeros (k - length bs + m))"
  by (simp add: SetViewValue_def zeros_def)

lemma writeString_zeros:
  assumes "length P = off" "length s \<le> k"
  shows "writeString (P @ zeros (k + m)) off s =
         Inr ((P @ map (\<lambda>c. word_of_int (ToUint8 (uint c))) s) @ zeros (k - length s + m))"
proof -
  have "off + length s \<le> length (P @ zeros (k + m))"
    using assms by (simp add: zeros_def)
  from writeString_loop_eq [OF _ this, of 0] assms show ?thesis
    by (simp add: writeString_def zeros_def)
qed

lemma pcm_loop_zeros:
  assumes "length P = off"
  shows "pcm_loop pcmData (P @ zeros (2 * length pcmData)) off 0 =
         Inr (P @ concat (map (\<lambda>v. rawBytes 2 (ToInt16 v)) pcmData))"
proof -
  have "off + 2 * (length pcmData - 0) \<le> length (P @ zeros (2 * length pcmData))"
    using assms by (simp add: zeros_def)
  from pcm_loop_eq [OF _ this] assms show ?thesis
    by (simp add: zeros_def)
qed

lemma pcmToWav_eq:
  "pcmToWav pcmData sampleRate =
     Inr (Blob (riff_header (length pcmData) sampleRate @
                concat (map (\<lambda>v. rawBytes 2 (ToInt16 v)) pcmData))
               (js ''audio/wav''))"
proof -
  define m where "m = 2 * length pcmData"
  define n where "n = int (length pcmData)"
  define H1 :: "byte list" where "H1 = [82, 73, 70, 70]"
  define H2 where "H2 = H1 @ rawBytes 4 (ToUint32 (36 + n * 2))"
  define H3 :: "byte list" where "H3 = H2 @ [87, 65, 86, 69]"
  define H4 :: "byte list" where "H4 = H3 @ [102, 109, 116, 32]"
  define H5 where "H5 = H4 @ rawBytes 4 (ToUint32 16)"
  define H6 where "H6 = H5 @ rawBytes 2 (ToUint16 1)"
  define H7 where "H7 = H6 @ rawBytes 2 (ToUint16 1)"
  define H8 where "H8 = H7 @ rawBytes 4 (ToUint32 sampleRate)"
  define H9 where "H9 = H8 @ rawBytes 4 (ToUint32 (sampleRate * 2))"
  define H10 where "H10 = H9 @ rawBytes 2 (ToUint16 2)"
  define H11 where "H11 = H10 @ rawBytes 2 (ToUint16 16)"
  define H12 :: "byte list" where "H12 = H11 @ [100, 97, 116, 97]"
  define H13 where "H13 = H12 @ rawBytes 4 (ToUint32 (n * 2))"
  note Hs = H1_def H2_def H3_def H4_def H5_def H6_def H7_def H8_def H9_def H10_def
    H11_def H12_def H13_def
  have b0: "ArrayBuffer (44 + length pcmData * 2) = [] @ zeros (44 + m)"
    by (simp add: ArrayBuffer_def zeros_def m_def mult.commute)
  have s1: "writeString ([] @ zeros (44 + m)) 0 (js ''RIFF'') = Inr (H1 @ zeros (40 + m))"
    by (subst writeString_zeros) (simp_all add: js_def H1_def ToUint8_def)
  have s2: "setUint32 (H1 @ zeros (40 + m)) 4 (36 + n * 2) True = Inr (H2 @ zeros (36 + m))"
    unfolding setUint32_def NumericToRawBytes_def
    by (subst SetViewValue_zeros) (simp_all add: Hs)
  have s3: "writeString (H2 @ zeros (36 + m)) 8 (js ''WAVE'') = Inr (H3 @ zeros (32 + m))"
    by (subst writeString_zeros) (simp_all add: js_def Hs ToUint8_def)
  have s4: "writeString (H3 @ zeros (32 + m)) 12 (js ''fmt '') = Inr (H4 @ zeros (28 + m))"
    by (subst writeString_zeros) (simp_all add: js_def Hs ToUint8_def)
  have s5: "setUint32 (H4 @ zeros (28 + m)) 16 16 True = Inr (H5 @ zeros (24 + m))"
    unfolding setUint32_def NumericToRawBytes_def
    by (subst SetViewValue_zeros) (simp_all add: Hs)
  have s6: "setUint16 (H5 @ zeros (24 + m)) 20 1 True = Inr (H6 @ zeros (22 + m))"
    unfolding setUint16_def NumericToRawBytes_def
    by (subst SetViewValue_zeros) (simp_all add: Hs)
  have s7: "setUint16 (H6 @ zeros (22 + m)) 22 1 True = Inr (H7 @ zeros (20 + m))"
    unfolding setUint16_def NumericToRawBytes_def
    by (subst SetViewValue_zeros) (simp_all add: Hs)
  have s8: "setUint32 (H7 @ zeros (20 + m)) 24 sampleRate True = Inr (H8 @ zeros (16 + m))"
    unfolding setUint32_def NumericToRawBytes_def
    by (subst SetViewValue_zeros) (simp_all add: Hs)
  have s9: "setUint32 (H8 @ zeros (16 + m)) 28 (sampleRate * 2) True = Inr (H9 @ zeros (12 + m))"
    unfolding setUint32_def NumericToRawBytes_def
    by (subst SetViewValue_zeros) (simp_all add: Hs)
  have s10: "setUint16 (H9 @ zeros (12 + m)) 32 2 True = Inr (H10 @ zeros (10 + m))"
    unfolding setUint16_def NumericToRawBytes_def
    by (subst SetViewValue_zeros) (simp_all add: Hs)
  have s11: "setUint16 (H10 @ zeros (10 + m)) 34 16 True = Inr (H11 @ zeros (8 + m))"
    unfolding setUint16_def NumericToRawBytes_def
    by (subst SetViewValue_zeros) (simp_all add: Hs)
  have s12: "writeString (H11 @ zeros (8 + m)) 36 (js ''data'') = Inr (H12 @ zeros (4 + m))"
    by (subst writeString_zeros) (simp_all add: js_def Hs ToUint8_def)
  have s13: "setUint32 (H12 @ zeros (4 + m)) 40 (n * 2) True = Inr (H13 @ zeros (0 + m))"
    unfolding setUint32_def NumericToRawBytes_def
    by (subst SetViewValue_zeros) (simp_all add: Hs)
  have s14: "pcm_loop pcmData (H13 @ zeros (0 + m)) 44 0 =
             Inr (H13 @ concat (map (\<lambda>v. rawBytes 2 (ToInt16 v)) pcmData))"
    unfolding m_def add_0 by (rule pcm_loop_zeros) (simp add: Hs)
  have h: "H13 = riff_header (length pcmData) sampleRate"
    by (simp add: Hs riff_header_def riff_fields_def n_def)
  have q: "(16::int) div 8 = 2" by simp
  show ?thesis
    unfolding pcmToWav_def Let_def b0 n_def [symmetric]
    by (simp only: q mult_1 mult_1_right andThen_def sum.case s1 s2 s3 s4 s5 s6 s7 s8 s9 s10 s11 s12 s13 s14) (simp only: h)
qed

lemma numericValue_rawBytes: "numericValue (rawBytes n v) = v mod 256 ^ n"
proof (induction n arbitrary: v)
  case 0
  show ?case by simp
next
  case (Suc n)
  have "uint (word_of_int v :: byte) = v mod 256"
    by (simp add: uint_word_of_int)
  moreover have "v mod (256 * 256 ^ n) = 256 * (v div 256 mod 256 ^ n) + v mod 256"
    by (rule zmod_zmult2_eq) simp
  ultimately show ?case
    using Suc [of "v div 256"] by simp
qed

lemma rawBytes2: "rawBytes 2 v = [word_of_int v, word_of_int (v div 256)]"
  by (simp add: numeral_eq_Suc)

lemma length_riff_header: "length (riff_header n r) = 44"
  by (simp add: riff_header_def riff_fields_def)

lemma length_concat_samples:
  "length (concat (map (\<lambda>v. rawBytes 2 (ToInt16 v)) xs)) = 2 * length xs"
  by (induction xs) simp_all

lemma wav_bytes_eq:
  "wav_bytes pcmData sampleRate =
     riff_header (length pcmData) sampleRate @ concat (map (\<lambda>v. rawBytes 2 (ToInt16 v)) pcmData)"
  by (simp add: wav_bytes_def pcmToWav_eq)

lemma pcmToWav_wav_bytes:
  "pcmToWav pcmData sampleRate = Inr (Blob (wav_bytes pcmData sampleRate) (js ''audio/wav''))"
  by (simp add: wav_bytes_eq pcmToWav_eq)

lemma length_wav_bytes: "length (wav_bytes pcmData sampleRate) = 44 + 2 * length pcmData"
  by (simp add: wav_bytes_eq length_riff_header length_concat_samples)

lemma ToInt16_mod: "ToInt16 v mod 2 ^ 16 = v mod 2 ^ 16"
proof -
  have "(v mod 2 ^ 16 - 2 ^ 16) mod 2 ^ 16 = v mod 2 ^ 16"
    by (metis minus_mod_self2 mod_mod_trivial)
  then show ?thesis by (simp add: ToInt16_def Let_def)
qed

lemma ToInt16_id: "- 32768 \<le> v \<Longrightarrow> v \<le> 32767 \<Longrightarrow> ToInt16 v = v"
proof -
  assume a: "- 32768 \<le> v" "v \<le> 32767"
  show ?thesis
  proof (cases "0 \<le> v")
    case True
    with a have "v mod 2 ^ 16 = v" by simp
    with a show ?thesis by (simp add: ToInt16_def Let_def)
  next
    case False
    have e1: "(v + 65536) mod 65536 = v + 65536"
      using a False by (intro mod_pos_pos_trivial) simp_all
    have e2: "(v + 65536) mod 65536 = v mod 65536" by (rule mod_add_self2)
    have "v mod 65536 = v + 65536" using e1 unfolding e2 .
    then have "v mod 2 ^ 16 = v + 65536" by simp
    with a False show ?thesis by (simp add: ToInt16_def Let_def not_le)
  qed
qed

lemma RawBytesToUint_rawBytes: "RawBytesToUint (rawBytes n v) True = v mod 256 ^ n"
  by (simp add: RawBytesToUint_def numericValue_rawBytes)

lemma RawBytesToInt_rawBytes2: "RawBytesToInt (rawBytes 2 (ToInt16 v)) True = ToInt16 v"
proof -
  have "RawBytesToUint (rawBytes 2 (ToInt16 v)) True = v mod 2 ^ 16"
    using ToInt16_mod [of v] by (simp add: RawBytesToUint_rawBytes)
  then show ?thesis
    by (simp add: RawBytesToInt_def ToInt16_def Let_def)
qed

lemma samplesLE_concat:
  "samplesLE (concat (map (\<lambda>v. rawBytes 2 (ToInt16 v)) xs)) = map ToInt16 xs"
proof (induction xs)
  case Nil
  show ?case by simp
next
  case (Cons x xs)
  have "RawBytesToInt [word_of_int (ToInt16 x), word_of_int (ToInt16 x div 256)] True = ToInt16 x"
    using RawBytesToInt_rawBytes2 [of x] by (simp add: rawBytes2)
  with Cons show ?case by (simp add: rawBytes2)
qed

text \<open>Reading a field that lies inside the header.\<close>

lemma concat_field:
  assumes "k < length fs"
  shows "take (length (fs ! k)) (drop (length (concat (take k fs))) (concat fs @ rest)) = fs ! k"
proof -
  have "concat fs = concat (take k fs) @ fs ! k @ concat (drop (Suc k) fs)"
    using assms by (metis concat.simps(2) concat_append id_take_nth_drop)
  then show ?thesis by simp
qed

lemma header_field:
  assumes "k < 13" "length (concat (take k (riff_fields (length pcmData) sampleRate))) = off"
    "length (riff_fields (length pcmData) sampleRate ! k) = n"
  shows "GetViewValue (wav_bytes pcmData sampleRate) off n =
         Inr (riff_fields (length pcmData) sampleRate ! k)"
proof -
  let ?fs = "riff_fields (length pcmData) sampleRate"
  have k: "k < length ?fs" using assms(1) by (simp add: riff_fields_def)
  have "concat ?fs = concat (take k ?fs) @ ?fs ! k @ concat (drop (Suc k) ?fs)"
    using k by (metis concat.simps(2) concat_append id_take_nth_drop)
  from arg_cong [OF this, of length] have "off + n \<le> 44"
    using assms(2,3) length_riff_header [of "length pcmData" sampleRate]
    by (simp add: riff_header_def)
  then have "\<not> off + n > length (wav_bytes pcmData sampleRate)"
    by (simp add: length_wav_bytes)
  moreover have "take n (drop off (wav_bytes pcmData sampleRate)) = ?fs ! k"
    unfolding wav_bytes_eq riff_header_def assms(2,3) [symmetric] by (rule concat_field [OF k])
  ultimately show ?thesis by (simp add: GetViewValue_def)
qed

lemma field_4_7: "GetViewValue (wav_bytes pcmData sampleRate) 4 4 = Inr (rawBytes 4 (ToUint32 (36 + int (length pcmData) * 2)))"
  using header_field [where k = 1 and off = 4 and n = 4 and pcmData = pcmData and sampleRate = sampleRate]
  by (simp add: riff_fields_def)

lemma field_40_43: "GetViewValue (wav_bytes pcmData sampleRate) 40 4 = Inr (rawBytes 4 (ToUint32 (int (length pcmData) * 2)))"
  using header_field [where k = 12 and off = 40 and n = 4 and pcmData = pcmData and sampleRate = sampleRate]
  by (simp add: riff_fields_def)

lemma getUint32_rawBytes:
  "GetViewValue view off 4 = Inr (rawBytes 4 (ToUint32 v)) \<Longrightarrow>
   getUint32 view off True = Inr (v mod 2 ^ 32)"
  by (simp add: getUint32_def andThen_def RawBytesToUint_def numericValue_rawBytes ToUint32_def)

lemma getUint16_rawBytes:
  "GetViewValue view off 2 = Inr (rawBytes 2 (ToUint16 v)) \<Longrightarrow>
   getUint16 view off True = Inr (v mod 2 ^ 16)"
  by (simp add: getUint16_def andThen_def RawBytesToUint_def numericValue_rawBytes ToUint16_def)

lemma data_length_field:
  "getUint32 (wav_bytes pcmData sampleRate) 40 True = Inr ((2 * int (length pcmData)) mod 2 ^ 32)"
  using getUint32_rawBytes [OF field_40_43] by (simp add: mult.commute)

lemma total_size_field:
  "getUint32 (wav_bytes pcmData sampleRate) 4 True = Inr ((36 + 2 * int (length pcmData)) mod 2 ^ 32)"
  using getUint32_rawBytes [OF field_4_7] by (simp add: mult.commute)

lemma ascii_field:
  assumes "k < 13"
    "length (concat (take k (riff_fields (length pcmData) sampleRate))) = off"
    "riff_fields (length pcmData) sampleRate ! k = ascii s" "length s = n"
  shows "GetViewValue (wav_bytes pcmData sampleRate) off n = Inr (ascii s)"
  using header_field [OF assms(1,2), of n] assms(3,4) by (simp add: ascii_def)

lemma marker_RIFF: "GetViewValue (wav_bytes pcmData sampleRate) 0 4 = Inr (ascii ''RIFF'')"
  by (rule ascii_field [where k = 0]) (simp_all add: riff_fields_def ascii_def)

lemma marker_WAVE: "GetViewValue (wav_bytes pcmData sampleRate) 8 4 = Inr (ascii ''WAVE'')"
  by (rule ascii_field [where k = 2]) (simp_all add: riff_fields_def ascii_def)

lemma marker_fmt: "GetViewValue (wav_bytes pcmData sampleRate) 12 4 = Inr (ascii ''fmt '')"
  by (rule ascii_field [where k = 3]) (simp_all add: riff_fields_def ascii_def)

lemma marker_data: "GetViewValue (wav_bytes pcmData sampleRate) 36 4 = Inr (ascii ''data'')"
  by (rule ascii_field [where k = 11]) (simp_all add: riff_fields_def ascii_def)

lemma fmt_length_field: "getUint32 (wav_bytes pcmData sampleRate) 16 True = Inr 16"
  using getUint32_rawBytes [of "wav_bytes pcmData sampleRate" 16 16]
    header_field [where k = 4 and off = 16 and n = 4 and pcmData = pcmData and sampleRate = sampleRate]
  by (simp add: riff_fields_def)

lemma format_tag_field: "getUint16 (wav_bytes pcmData sampleRate) 20 True = Inr 1"
  using getUint16_rawBytes [of "wav_bytes pcmData sampleRate" 20 1]
    header_field [where k = 5 and off = 20 and n = 2 and pcmData = pcmData and sampleRate = sampleRate]
  by (simp add: riff_fields_def)

lemma channels_field: "getUint16 (wav_bytes pcmData sampleRate) 22 True = Inr 1"
  using getUint16_rawBytes [of "wav_bytes pcmData sampleRate" 22 1]
    header_field [where k = 6 and off = 22 and n = 2 and pcmData = pcmData and sampleRate = sampleRate]
  by (simp add: riff_fields_def)

lemma block_align_field: "getUint16 (wav_bytes pcmData sampleRate) 32 True = Inr 2"
  using getUint16_rawBytes [of "wav_bytes pcmData sampleRate" 32 2]
    header_field [where k = 9 and off = 32 and n = 2 and pcmData = pcmData and sampleRate = sampleRate]
  by (simp add: riff_fields_def)

lemma bits_field: "getUint16 (wav_bytes pcmData sampleRate) 34 True = Inr 16"
  using getUint16_rawBytes [of "wav_bytes pcmData sampleRate" 34 16]
    header_field [where k = 10 and off = 34 and n = 2 and pcmData = pcmData and sampleRate = sampleRate]
  by (simp add: riff_fields_def)

lemma sample_bytes:
  assumes "i < length pcmData"
  shows "GetViewValue (wav_bytes pcmData sampleRate) (44 + 2 * i) 2 =
         Inr (rawBytes 2 (ToInt16 (pcmData ! i)))"
proof -
  let ?fs = "map (\<lambda>v. rawBytes 2 (ToInt16 v)) pcmData"
  have k: "i < length ?fs" using assms by simp
  have l: "length (concat (take i ?fs)) = 2 * i"
    using assms by (simp add: take_map length_concat_samples)
  have "take (length (?fs ! i)) (drop (length (concat (take i ?fs))) (concat ?fs @ [])) = ?fs ! i"
    by (rule concat_field [OF k])
  then have "take 2 (drop (2 * i) (concat ?fs)) = rawBytes 2 (ToInt16 (pcmData ! i))"
    using assms by (simp add: l)
  then have "take 2 (drop (44 + 2 * i) (wav_bytes pcmData sampleRate)) =
             rawBytes 2 (ToInt16 (pcmData ! i))"
    by (simp add: wav_bytes_eq length_riff_header)
  moreover have "\<not> 44 + 2 * i + 2 > length (wav_bytes pcmData sampleRate)"
    using assms by (simp add: length_wav_bytes)
  ultimately show ?thesis by (simp add: GetViewValue_def)
qed

lemma sample_signed:
  assumes "i < length pcmData"
  shows "getInt16 (wav_bytes pcmData sampleRate) (44 + 2 * i) True = Inr (ToInt16 (pcmData ! i))"
  by (simp add: getInt16_def sample_bytes [OF assms] andThen_def RawBytesToInt_rawBytes2)

lemma sample_unsigned:
  assumes "i < length pcmData"
  shows "getUint16 (wav_bytes pcmData sampleRate) (44 + 2 * i) True = Inr (pcmData ! i mod 2 ^ 16)"
  using ToInt16_mod [of "pcmData ! i"]
  by (simp add: getUint16_def sample_bytes [OF assms] andThen_def RawBytesToUint_rawBytes)

lemma sample_rate_field:
  "getUint32 (wav_bytes pcmData sampleRate) 24 True = Inr (sampleRate mod 2 ^ 32)"
  using header_field [where k = 7 and off = 24 and n = 4 and pcmData = pcmData and sampleRate = sampleRate]
  by (intro getUint32_rawBytes) (simp add: riff_fields_def)

lemma byte_rate_field:
  "getUint32 (wav_bytes pcmData sampleRate) 28 True = Inr ((sampleRate * 2) mod 2 ^ 32)"
  using header_field [where k = 8 and off = 28 and n = 4 and pcmData = pcmData and sampleRate = sampleRate]
  by (intro getUint32_rawBytes) (simp add: riff_fields_def)

lemma wavToPcm_wav_bytes:
  "wavToPcm (wav_bytes pcmData sampleRate) = Inr (map ToInt16 pcmData, sampleRate mod 2 ^ 32)"
  by (simp add: wavToPcm_def length_wav_bytes sample_rate_field andThen_def)
    (simp add: wav_bytes_eq length_riff_header samplesLE_concat)

section \<open>The heap version and the pure version agree\<close>

lemma andThen_Inr [simp]: "andThen (Inr x) f = f x"
  by (simp add: andThen_def)

lemma andThen_Inl [simp]: "andThen (Inl e) f = Inl e"
  by (simp add: andThen_def)

lemma andThen_assoc: "andThen (andThen m f) g = andThen m (\<lambda>x. andThen (f x) g)"
  by (cases m) simp_all

lemma heap_buffer_fresh: "heap_buffer (h @ [ArrayBufferObj b]) (length h) = Inr b"
  by (simp add: heap_buffer_def)

lemma heap_array_old:
  "pcmData < length h \<Longrightarrow> h ! pcmData = NumberArray xs \<Longrightarrow>
   heap_array (h @ [x]) pcmData = Inr xs"
  by (simp add: heap_array_def nth_append)

lemma heap_view_set_fresh_eq:
  "heap_view_set (h @ [ArrayBufferObj b]) (length h) setter =
   andThen (setter b) (\<lambda>b'. Inr (h @ [ArrayBufferObj b']))"
  by (simp add: heap_view_set_def heap_buffer_fresh)

lemma heap_view_set_fresh:
  "andThen (heap_view_set (h @ [ArrayBufferObj b]) (length h) setter) k =
   andThen (setter b) (\<lambda>b'. k (h @ [ArrayBufferObj b']))"
  by (cases "setter b") (simp_all add: heap_view_set_def heap_buffer_fresh)

lemma heap_pcm_loop_fresh:
  assumes "pcmData < length h" "h ! pcmData = NumberArray xs"
  shows "heap_pcm_loop (h @ [ArrayBufferObj b]) pcmData (length h) offset i =
         andThen (pcm_loop xs b offset i) (\<lambda>b'. Inr (h @ [ArrayBufferObj b']))"
  using assms
proof (induction xs b offset i rule: pcm_loop.induct)
  case (1 xs' b offset i)
  note arr = heap_array_old [OF "1.prems", of "ArrayBufferObj b"]
  show ?case
  proof (cases "i < length xs'")
    case False
    then show ?thesis
      by (subst heap_pcm_loop.simps, subst pcm_loop.simps) (simp add: arr)
  next
    case True
    show ?thesis
    proof (cases "setInt16 b offset (xs' ! i) True")
      case (Inl e)
      then show ?thesis
        using True
        by (subst heap_pcm_loop.simps, subst pcm_loop.simps) (simp add: arr heap_view_set_fresh_eq)
    next
      case (Inr b')
      then show ?thesis
        using True "1.IH" [OF True "1.prems", of b']
        by (subst heap_pcm_loop.simps, subst pcm_loop.simps) (simp add: arr heap_view_set_fresh_eq)
    qed
  qed
qed

lemma heap_pcm_loop_fresh_andThen:
  assumes "pcmData < length h" "h ! pcmData = NumberArray xs"
  shows "andThen (heap_pcm_loop (h @ [ArrayBufferObj b]) pcmData (length h) offset i) k =
         andThen (pcm_loop xs b offset i) (\<lambda>b'. k (h @ [ArrayBufferObj b']))"
  by (simp add: heap_pcm_loop_fresh [OF assms] andThen_assoc)

lemma heap_pcmToWav_eq:
  assumes "pcmData < length h" "h ! pcmData = NumberArray xs"
  shows "heap_pcmToWav h pcmData sampleRate =
         andThen (pcmToWav xs sampleRate)
           (\<lambda>wavBlob. Inr (h @ [ArrayBufferObj (blob_bytes wavBlob)], wavBlob))"
proof -
  have a: "heap_array h pcmData = Inr xs"
    using assms by (simp add: heap_array_def)
  show ?thesis
    unfolding heap_pcmToWav_def pcmToWav_def Let_def
    by (simp only: a andThen_Inr heap_view_set_fresh heap_array_old [OF assms]
        heap_pcm_loop_fresh_andThen [OF assms] heap_buffer_fresh andThen_assoc blob.sel)
qed

section \<open>The regular expression\<close>

lemma exponent_of_small: "n < 2 ^ 53 \<Longrightarrow> exponent_of n = 0"
  by (subst exponent_of.simps) simp

lemma numberValue_exact: "n \<le> 2 ^ 53 \<Longrightarrow> numberValue n = n"
proof (cases "n < 2 ^ 53")
  case True
  then show ?thesis by (simp add: numberValue_def exponent_of_small)
next
  case False
  assume "n \<le> 2 ^ 53"
  with False have n: "n = 2 ^ 53" by simp
  have "exponent_of (2 ^ 53) = Suc 0"
    by (subst exponent_of.simps) (simp add: exponent_of_small)
  then show ?thesis by (simp add: n numberValue_def)
qed

lemma decimal_value_snoc: "decimal_value (ds @ [d]) = decimal_value ds * 10 + d"
proof -
  have "(\<Sum>k<length ds. (ds @ [d]) ! k * 10 ^ (length (ds @ [d]) - 1 - k)) =
        (\<Sum>k<length ds. (ds ! k * 10 ^ (length ds - 1 - k)) * 10)"
  proof (rule sum.cong [OF refl])
    fix k
    assume "k \<in> {..<length ds}"
    then have k: "k < length ds" by simp
    then have "length (ds @ [d]) - 1 - k = Suc (length ds - 1 - k)" by simp
    with k show "(ds @ [d]) ! k * 10 ^ (length (ds @ [d]) - 1 - k) =
                 (ds ! k * 10 ^ (length ds - 1 - k)) * 10"
      by (simp add: nth_append)
  qed
  then show ?thesis
    by (simp add: decimal_value_def sum_distrib_right)
qed

lemma mathInt_decimal_value: "mathInt digits = decimal_value (map digitValue digits)"
proof (induction digits rule: rev_induct)
  case Nil
  show ?case by (simp add: mathInt_def decimal_value_def)
next
  case (snoc c cs)
  then show ?case
    by (simp add: mathInt_def decimal_value_snoc digitValue_def)
qed

lemma parseInt10_exact:
  "decimal_value (map digitValue digits) \<le> 2 ^ 53 \<Longrightarrow>
   parseInt10 digits = decimal_value (map digitValue digits)"
  by (simp add: parseInt10_def mathInt_decimal_value numberValue_exact)

lemma numberValue_rounds: "numberValue 9007199254740993 = 9007199254740992"
proof -
  have "exponent_of 9007199254740993 = 1"
    by (subst exponent_of.simps) (simp add: exponent_of_small)
  then show ?thesis by (simp add: numberValue_def)
qed

lemma sampleRate_of_rounds:
  "sampleRate_of (js ''audio/L16;rate=9007199254740993'') = 9007199254740992"
  by (simp add: sampleRate_of_def js_def isDigit_def parseInt10_def mathInt_def numberValue_rounds)

lemma decimal_value_rounds:
  "decimal_value (map digitValue (js ''9007199254740993'')) = 9007199254740993"
  unfolding mathInt_decimal_value [symmetric] by (simp add: mathInt_def js_def)

text \<open>The representative of \<open>Infinity\<close> leaves 0 in both rate fields, as \<open>Infinity\<close> does.\<close>

lemma Infinity_rate_fields:
  "getUint32 (wav_bytes pcmData Infinity) 24 True = Inr 0 \<and>
   getUint32 (wav_bytes pcmData Infinity) 28 True = Inr 0"
  by (simp add: sample_rate_field byte_rate_field Infinity_def)

lemma takeWhile_nonempty:
  "takeWhile P ys \<noteq> [] \<longleftrightarrow> (case ys of [] \<Rightarrow> False | d # rest \<Rightarrow> P d)"
  by (cases ys) simp_all

lemma match_rate_Cons:
  "match_rate (c # cs) =
     (if has_rate_at (c # cs) 0 then Some (takeWhile isDigit (drop 5 (c # cs)))
      else match_rate cs)"
  by (simp add: has_rate_at_def takeWhile_nonempty Let_def)

lemma has_rate_at_Suc: "has_rate_at (c # cs) (Suc j) = has_rate_at cs j"
  by (simp add: has_rate_at_def)

lemma match_rate_first:
  "has_rate_at mimeType i \<Longrightarrow> (\<forall>j<i. \<not> has_rate_at mimeType j) \<Longrightarrow>
   match_rate mimeType = Some (takeWhile isDigit (drop 5 (drop i mimeType)))"
proof (induction mimeType arbitrary: i)
  case Nil
  then show ?case by (simp add: has_rate_at_def js_def)
next
  case (Cons c cs)
  show ?case
  proof (cases i)
    case 0
    with Cons.prems show ?thesis by (simp only: match_rate_Cons) simp
  next
    case (Suc k)
    with Cons.prems have no: "\<not> has_rate_at (c # cs) 0" by blast
    have "has_rate_at cs k" using Cons.prems(1) Suc by (simp add: has_rate_at_Suc)
    moreover have "\<forall>j<k. \<not> has_rate_at cs j"
      using Cons.prems(2) Suc has_rate_at_Suc [of c cs] by auto
    ultimately have "match_rate cs = Some (takeWhile isDigit (drop 5 (drop k cs)))"
      by (rule Cons.IH)
    with no Suc show ?thesis by (simp only: match_rate_Cons) simp
  qed
qed

lemma match_rate_none:
  "(\<forall>j<length mimeType. \<not> has_rate_at mimeType j) \<Longrightarrow> match_rate mimeType = None"
proof (induction mimeType)
  case Nil
  show ?case by simp
next
  case (Cons c cs)
  have no: "\<not> has_rate_at (c # cs) 0" using Cons.prems by simp
  have "\<forall>j<length cs. \<not> has_rate_at cs j"
    using Cons.prems has_rate_at_Suc [of c cs] by auto
  then have "match_rate cs = None" by (rule Cons.IH)
  with no show ?case by (simp only: match_rate_Cons) simp
qed

section \<open>The conversion pipeline\<close>

lemma fill_loop_eq:
  "i \<le> length binaryString \<Longrightarrow> length bytes = length binaryString \<Longrightarrow>
   fill_loop bytes binaryString i =
     take i bytes @ map (\<lambda>c. word_of_int (ToUint8 (uint c))) (drop i binaryString)"
proof (induction bytes binaryString i rule: fill_loop.induct)
  case (1 bytes binaryString i)
  show ?case
  proof (cases "i < length binaryString")
    case False
    with "1.prems" show ?thesis by (subst fill_loop.simps) simp
  next
    case True
    define bytes' where "bytes' = bytes[i := word_of_int (ToUint8 (uint (binaryString ! i)))]"
    have ih: "fill_loop bytes' binaryString (i + 1) =
        take (i + 1) bytes' @ map (\<lambda>c. word_of_int (ToUint8 (uint c))) (drop (i + 1) binaryString)"
      using "1.IH" [OF True] True "1.prems" by (simp add: bytes'_def)
    have t: "take (i + 1) bytes' = take i bytes @ [word_of_int (ToUint8 (uint (binaryString ! i)))]"
      using True "1.prems" by (simp add: bytes'_def take_Suc_conv_app_nth)
    have c: "drop i binaryString = binaryString ! i # drop (i + 1) binaryString"
      using True by (simp add: Cons_nth_drop_Suc)
    show ?thesis
      apply (subst fill_loop.simps)
      apply (simp only: True if_True bytes'_def [symmetric] ih t)
      apply (simp add: c)
      done
  qed
qed

lemma base64ToArrayBuffer_eq:
  "base64ToArrayBuffer base64 =
     (case atob base64 of Inl e \<Rightarrow> Inl e
      | Inr binaryString \<Rightarrow> Inr (map (\<lambda>c. word_of_int (ToUint8 (uint c))) binaryString))"
proof (cases "atob base64")
  case (Inl e)
  then show ?thesis by (simp add: base64ToArrayBuffer_def andThen_def)
next
  case (Inr s)
  have "fill_loop (replicate (length s) 0) s 0 = map (\<lambda>c. word_of_int (ToUint8 (uint c))) s"
    using fill_loop_eq [of 0 s "replicate (length s) 0"] by simp
  then show ?thesis
    by (simp only: base64ToArrayBuffer_def andThen_def Inr sum.case Let_def)
qed

lemma word_of_int_ToUint8: "(word_of_int (ToUint8 v) :: byte) = word_of_int v"
  by (simp add: ToUint8_def word_of_int_eq_iff take_bit_eq_mod)

lemma length_samplesLE: "length (samplesLE bs) = length bs div 2"
  by (induction bs rule: samplesLE.induct) simp_all

lemma tts_audio_Played:
  assumes "tts_audio audioData mimeType = Played wavBlob"
  shows "\<exists>a m bytes pcm16. audioData = Some a \<and> mimeType = Some m \<and>
           base64ToArrayBuffer a = Inr bytes \<and> even (length bytes) \<and>
           new_Int16Array bytes = Inr pcm16 \<and> 2 * length pcm16 = length bytes \<and>
           pcmToWav pcm16 (sampleRate_of m) = Inr wavBlob"
proof -
  from assms obtain a m where am: "audioData = Some a" "mimeType = Some m"
    by (auto simp add: tts_audio_def split: option.splits)
  from assms am obtain bytes where b: "base64ToArrayBuffer a = Inr bytes"
    by (auto simp add: tts_audio_def andThen_def Let_def split: if_splits sum.splits)
  from assms am b obtain pcm16 where p: "new_Int16Array bytes = Inr pcm16"
    by (auto simp add: tts_audio_def andThen_def Let_def split: if_splits sum.splits)
  from assms am b p have w: "pcmToWav pcm16 (sampleRate_of m) = Inr wavBlob"
    by (auto simp add: tts_audio_def andThen_def Let_def split: if_splits sum.splits)
  from p have e: "even (length bytes)" "pcm16 = samplesLE bytes"
    by (auto simp add: new_Int16Array_def split: if_splits)
  then have "2 * length pcm16 = length bytes"
    by (simp add: length_samplesLE)
  with am b p w e show ?thesis by blast
qed

lemma tts_audio_odd:
  assumes "base64ToArrayBuffer a = Inr bytes" "odd (length bytes)" "a \<noteq> []"
    "startsWith m (js ''audio/L16'')"
  shows "tts_audio (Some a) (Some m) = Caught RangeError"
proof -
  have "m \<noteq> []" using assms(4) by (auto simp add: startsWith_def js_def)
  moreover have "new_Int16Array bytes = Inl RangeError"
    using assms(2) by (simp add: new_Int16Array_def odd_iff_mod_2_eq_one)
  ultimately show ?thesis
    using assms by (simp add: tts_audio_def andThen_def)
qed

lemma atob_AAAA: "atob (js ''AAAA'') = Inr [0, 0, 0]"
  by (simp add: atob_def js_def strip_padding_def isAsciiWhitespace_def base64_index_def)

lemma atob_ex2: "atob (js ''AAD/fw=='') = Inr [0, 0, 255, 127]"
  by (simp add: atob_def js_def strip_padding_def isAsciiWhitespace_def base64_index_def)

lemma sampleRate_of_example: "sampleRate_of (js ''audio/L16;rate=16000'') = 16000"
  by (simp add: sampleRate_of_def js_def isDigit_def parseInt10_def mathInt_def numberValue_exact)

lemma base64ToArrayBuffer_example: "base64ToArrayBuffer (js ''AAD/fw=='') = Inr [0, 0, 255, 127]"
  by (simp add: base64ToArrayBuffer_eq atob_ex2 ToUint8_def)

lemma base64ToArrayBuffer_odd_example: "base64ToArrayBuffer (js ''AAAA'') = Inr [0, 0, 0]"
  by (simp add: base64ToArrayBuffer_eq atob_AAAA ToUint8_def)

lemma new_Int16Array_example: "new_Int16Array [0, 0, 255, 127] = Inr [0, 32767]"
  by (simp add: new_Int16Array_def RawBytesToInt_def RawBytesToUint_def)

lemma tts_audio_example:
  "tts_audio (Some (js ''AAD/fw=='')) (Some (js ''audio/L16;rate=16000'')) =
     Played (Blob (wav_bytes [0, 32767] 16000) (js ''audio/wav''))"
proof -
  have "js ''AAD/fw=='' \<noteq> []" "js ''audio/L16;rate=16000'' \<noteq> []"
    "startsWith (js ''audio/L16;rate=16000'') (js ''audio/L16'')"
    by (simp_all add: js_def startsWith_def)
  then show ?thesis
    by (simp add: tts_audio_def sampleRate_of_example base64ToArrayBuffer_example
        new_Int16Array_example pcmToWav_wav_bytes)
qed

section \<open>The claims\<close>

text \<open>
  Claim C1, amended. For every sequence of signed 16-bit samples and every sample rate
  that an unsigned 32-bit field can hold (\<open>0 \<le> sampleRate < 2 ^ 32\<close>), decoding the
  encoder's output yields the original samples and the original sample rate.
\<close>

theorem pcmToWav_roundtrip:
  assumes "\<forall>v \<in> set pcmData. - 32768 \<le> v \<and> v \<le> 32767"
    and "0 \<le> sampleRate" and "sampleRate < 2 ^ 32"
  shows "\<exists>bs. pcmToWav pcmData sampleRate = Inr (Blob bs (js ''audio/wav'')) \<and>
          wavToPcm bs = Inr (pcmData, sampleRate)"
proof -
  have "map ToInt16 pcmData = pcmData"
    using assms(1) by (simp add: map_idI ToInt16_id)
  moreover have "sampleRate mod 2 ^ 32 = sampleRate"
    using assms(2,3) by simp
  ultimately have "wavToPcm (wav_bytes pcmData sampleRate) = Inr (pcmData, sampleRate)"
    by (simp add: wavToPcm_wav_bytes)
  with pcmToWav_wav_bytes show ?thesis by blast
qed

theorem pcmToWav_roundtrip_witness:
  "set [0, 32767, - 32768, 1000 :: int] \<subseteq> {- 32768 .. 32767} \<and>
   (0 :: int) \<le> 24000 \<and> (24000 :: int) < 2 ^ 32 \<and>
   (\<exists>bs. pcmToWav [0, 32767, - 32768, 1000] 24000 = Inr (Blob bs (js ''audio/wav'')) \<and>
         wavToPcm bs = Inr ([0, 32767, - 32768, 1000], 24000))"
  using pcmToWav_roundtrip [of "[0, 32767, - 32768, 1000]" 24000] by simp

text \<open>
  The sample rate \<open>2 ^ 32\<close> does not survive the round trip: the header holds 0.
\<close>

theorem pcmToWav_roundtrip_counterexample:
  "wavToPcm (wav_bytes [] 4294967296) = Inr ([], 0) \<and>
   wavToPcm (wav_bytes [] 4294967296) \<noteq> Inr ([], 4294967296)"
  by (simp add: wavToPcm_wav_bytes)

text \<open>
  Claim C2. For every sequence of samples and every sample rate the encoder returns a
  \<open>Blob\<close>, and its byte length is 44 plus twice the number of samples.
\<close>

theorem pcmToWav_length:
  "\<exists>bs. pcmToWav pcmData sampleRate = Inr (Blob bs (js ''audio/wav'')) \<and>
        length bs = 44 + 2 * length pcmData"
  using pcmToWav_wav_bytes length_wav_bytes by blast

text \<open>
  Claim C3, amended. For every input sample sequence, of \<open>n\<close> samples, the output is
  \<open>44 + 2 * n\<close> bytes long, and its two size fields, unsigned 32-bit integers, hold
  \<open>2 * n\<close> and \<open>36 + 2 * n\<close> modulo \<open>2 ^ 32\<close>. Whenever \<open>36 + 2 * n\<close> fits in 32 bits, the
  data-length field (bytes 40 to 43) therefore reads back as \<open>2 * n\<close> and the total-size
  field (bytes 4 to 7) as \<open>36 + 2 * n\<close>, which is the output length minus 8.
\<close>

theorem pcmToWav_size_fields:
  "\<exists>bs. pcmToWav pcmData sampleRate = Inr (Blob bs (js ''audio/wav'')) \<and>
     length bs = 44 + 2 * length pcmData \<and>
     getUint32 bs 40 True = Inr ((2 * int (length pcmData)) mod 2 ^ 32) \<and>
     getUint32 bs 4 True = Inr ((36 + 2 * int (length pcmData)) mod 2 ^ 32) \<and>
     (36 + 2 * length pcmData < 2 ^ 32 \<longrightarrow>
        getUint32 bs 40 True = Inr (2 * int (length pcmData)) \<and>
        getUint32 bs 4 True = Inr (36 + 2 * int (length pcmData)) \<and>
        36 + 2 * int (length pcmData) = int (length bs) - 8)"
proof -
  have "36 + 2 * length pcmData < 2 ^ 32 \<longrightarrow>
      (2 * int (length pcmData)) mod 2 ^ 32 = 2 * int (length pcmData) \<and>
      (36 + 2 * int (length pcmData)) mod 2 ^ 32 = 36 + 2 * int (length pcmData)"
  proof
    assume "36 + 2 * length pcmData < 2 ^ 32"
    then have "36 + 2 * int (length pcmData) < 2 ^ 32"
      by (metis (mono_tags) of_nat_less_iff of_nat_add of_nat_mult of_nat_numeral of_nat_power)
    then show "(2 * int (length pcmData)) mod 2 ^ 32 = 2 * int (length pcmData) \<and>
      (36 + 2 * int (length pcmData)) mod 2 ^ 32 = 36 + 2 * int (length pcmData)"
      by simp
  qed
  then show ?thesis
    using pcmToWav_wav_bytes [of pcmData sampleRate] data_length_field [of pcmData sampleRate]
      total_size_field [of pcmData sampleRate] length_wav_bytes [of pcmData sampleRate]
    by (intro exI [of _ "wav_bytes pcmData sampleRate"]) simp
qed

theorem pcmToWav_size_fields_witness:
  "36 + 2 * length [0, 32767, -32768, 1000 :: int] < 2 ^ 32 \<and>
   (\<exists>bs. pcmToWav [0, 32767, -32768, 1000] 24000 = Inr (Blob bs (js ''audio/wav'')) \<and>
          getUint32 bs 40 True = Inr 8 \<and> getUint32 bs 4 True = Inr 44 \<and> length bs = 52)"
  using pcmToWav_size_fields [of "[0, 32767, -32768, 1000]" 24000] by auto

text \<open>
  With \<open>2 ^ 31\<close> samples the data length \<open>2 ^ 32\<close> no longer fits: the field reads back
  as 0, not as twice the number of samples.
\<close>

theorem pcmToWav_size_fields_counterexample:
  "getUint32 (wav_bytes (replicate 2147483648 0) 24000) 40 True = Inr 0 \<and>
   getUint32 (wav_bytes (replicate 2147483648 0) 24000) 40 True \<noteq>
     Inr (2 * int (length (replicate 2147483648 (0 :: int))))"
  by (simp add: data_length_field)

text \<open>
  Claim C4, amended. For every input the first 44 bytes are laid out as the claim lists
  them: the markers \<open>RIFF\<close>, \<open>WAVE\<close>, \<open>fmt \<close> and \<open>data\<close> at bytes 0, 8, 12 and 36, the
  constants 16, 1, 1, 2 and 16 at bytes 16, 20, 22, 32 and 34. The two rate fields are
  unsigned 32-bit integers: bytes 24 to 27 hold \<open>sampleRate\<close> and bytes 28 to 31 hold
  \<open>sampleRate * 2\<close>, each reduced modulo \<open>2 ^ 32\<close>, so they read back as \<open>sampleRate\<close> and
  \<open>sampleRate * 2\<close> whenever \<open>0 \<le> sampleRate < 2 ^ 31\<close>.
\<close>

theorem pcmToWav_header_layout:
  "\<exists>bs. pcmToWav pcmData sampleRate = Inr (Blob bs (js ''audio/wav'')) \<and>
     GetViewValue bs 0 4 = Inr (ascii ''RIFF'') \<and>
     GetViewValue bs 8 4 = Inr (ascii ''WAVE'') \<and>
     GetViewValue bs 12 4 = Inr (ascii ''fmt '') \<and>
     getUint32 bs 16 True = Inr 16 \<and>
     getUint16 bs 20 True = Inr 1 \<and>
     getUint16 bs 22 True = Inr 1 \<and>
     getUint32 bs 24 True = Inr (sampleRate mod 2 ^ 32) \<and>
     getUint32 bs 28 True = Inr ((sampleRate * 2) mod 2 ^ 32) \<and>
     getUint16 bs 32 True = Inr 2 \<and>
     getUint16 bs 34 True = Inr 16 \<and>
     GetViewValue bs 36 4 = Inr (ascii ''data'') \<and>
     (0 \<le> sampleRate \<and> sampleRate < 2 ^ 31 \<longrightarrow>
        getUint32 bs 24 True = Inr sampleRate \<and> getUint32 bs 28 True = Inr (sampleRate * 2))"
proof -
  have "0 \<le> sampleRate \<and> sampleRate < 2 ^ 31 \<longrightarrow>
        sampleRate mod 2 ^ 32 = sampleRate \<and> (sampleRate * 2) mod 2 ^ 32 = sampleRate * 2"
    by simp
  then show ?thesis
    using pcmToWav_wav_bytes [of pcmData sampleRate]
      marker_RIFF [of pcmData sampleRate] marker_WAVE [of pcmData sampleRate]
      marker_fmt [of pcmData sampleRate] marker_data [of pcmData sampleRate]
      fmt_length_field [of pcmData sampleRate] format_tag_field [of pcmData sampleRate]
      channels_field [of pcmData sampleRate] sample_rate_field [of pcmData sampleRate]
      byte_rate_field [of pcmData sampleRate] block_align_field [of pcmData sampleRate]
      bits_field [of pcmData sampleRate]
    by (intro exI [of _ "wav_bytes pcmData sampleRate"]) simp
qed

theorem pcmToWav_header_layout_witness:
  "(0 :: int) \<le> 24000 \<and> (24000 :: int) < 2 ^ 31 \<and>
   (\<exists>bs. pcmToWav [0, 32767, - 32768, 1000] 24000 = Inr (Blob bs (js ''audio/wav'')) \<and>
      GetViewValue bs 0 4 = Inr (ascii ''RIFF'') \<and>
      getUint32 bs 24 True = Inr 24000 \<and> getUint32 bs 28 True = Inr 48000)"
  using pcmToWav_header_layout [of "[0, 32767, - 32768, 1000]" 24000] by auto

text \<open>
  At the sample rate \<open>2 ^ 31\<close> (the caller passes it for the media type
  \<open>audio/L16;rate=2147483648\<close>) the byte-rate field reads back as 0, not as twice the rate.
\<close>

theorem pcmToWav_header_layout_counterexample:
  "getUint32 (wav_bytes [] 2147483648) 28 True = Inr 0 \<and>
   getUint32 (wav_bytes [] 2147483648) 28 True \<noteq> Inr (2147483648 * 2)"
  by (simp add: byte_rate_field)

text \<open>
  Claim C5. The sample at index \<open>i\<close> of the input occupies the two bytes at offsets
  \<open>44 + 2 * i\<close> and \<open>44 + 2 * i + 1\<close>, written as a signed 16-bit little-endian integer:
  the bytes are the two's complement encoding that \<open>setInt16\<close> stores, and they read
  back as the sample itself when it is a signed 16-bit value.
\<close>

theorem pcmToWav_sample_placement:
  assumes "i < length pcmData"
  shows "\<exists>bs. pcmToWav pcmData sampleRate = Inr (Blob bs (js ''audio/wav'')) \<and>
     GetViewValue bs (44 + 2 * i) 2 = Inr (rawBytes 2 (ToInt16 (pcmData ! i))) \<and>
     getInt16 bs (44 + 2 * i) True = Inr (ToInt16 (pcmData ! i)) \<and>
     (- 32768 \<le> pcmData ! i \<and> pcmData ! i \<le> 32767 \<longrightarrow>
        getInt16 bs (44 + 2 * i) True = Inr (pcmData ! i))"
  using pcmToWav_wav_bytes [of pcmData sampleRate] sample_bytes [OF assms, of sampleRate]
    sample_signed [OF assms, of sampleRate] ToInt16_id [of "pcmData ! i"]
  by (intro exI [of _ "wav_bytes pcmData sampleRate"]) simp

theorem pcmToWav_sample_placement_witness:
  "(2 :: nat) < length [0, 32767, - 32768, 1000 :: int] \<and>
   - 32768 \<le> [0, 32767, - 32768, 1000 :: int] ! 2 \<and> [0, 32767, - 32768, 1000 :: int] ! 2 \<le> 32767 \<and>
   (\<exists>bs. pcmToWav [0, 32767, - 32768, 1000] 24000 = Inr (Blob bs (js ''audio/wav'')) \<and>
      GetViewValue bs 48 2 = Inr [0, 128] \<and> getInt16 bs 48 True = Inr (- 32768))"
  using pcmToWav_sample_placement [of 2 "[0, 32767, - 32768, 1000]" 24000]
  by (auto simp add: rawBytes2 ToInt16_def)

text \<open>
  Claim C6. The encoder does not validate the sample rate: for every sample rate, and
  every sample sequence, it returns a \<open>Blob\<close> and throws nothing. With sample rate 0 the
  sample-rate field (bytes 24 to 27) and the byte-rate field (bytes 28 to 31) are both 0.
\<close>

theorem pcmToWav_no_rate_validation:
  "(\<exists>bs. pcmToWav pcmData sampleRate = Inr (Blob bs (js ''audio/wav''))) \<and>
   (\<exists>bs. pcmToWav pcmData 0 = Inr (Blob bs (js ''audio/wav'')) \<and>
      getUint32 bs 24 True = Inr 0 \<and> getUint32 bs 28 True = Inr 0)"
  using pcmToWav_wav_bytes [of pcmData sampleRate] pcmToWav_wav_bytes [of pcmData 0]
    sample_rate_field [of pcmData 0] byte_rate_field [of pcmData 0]
  by auto

text \<open>
  Claim C7, amended. The sample rate handed to the encoder is \<open>sampleRate_of mimeType\<close>.
  Where the pattern \<open>rate=<digits>\<close> occurs in the media type and the digits that follow
  its first occurrence denote a decimal integer of at most \<open>2 ^ 53\<close>, the sample rate is
  that integer; for every media type in which the pattern does not occur, it is 24000.
\<close>

theorem sampleRate_of_mimeType:
  "(has_rate_at mimeType i \<and> (\<forall>j<i. \<not> has_rate_at mimeType j) \<and>
    decimal_value (map digitValue (takeWhile isDigit (drop 5 (drop i mimeType)))) \<le> 2 ^ 53 \<longrightarrow>
      sampleRate_of mimeType =
        decimal_value (map digitValue (takeWhile isDigit (drop 5 (drop i mimeType))))) \<and>
   ((\<forall>j<length mimeType. \<not> has_rate_at mimeType j) \<longrightarrow> sampleRate_of mimeType = 24000) \<and>
   (tts_audio audioData (Some mimeType) = Played wavBlob \<longrightarrow>
      (\<exists>pcm16. pcmToWav pcm16 (sampleRate_of mimeType) = Inr wavBlob))"
proof (intro conjI impI)
  assume a: "has_rate_at mimeType i \<and> (\<forall>j<i. \<not> has_rate_at mimeType j) \<and>
    decimal_value (map digitValue (takeWhile isDigit (drop 5 (drop i mimeType)))) \<le> 2 ^ 53"
  then have "match_rate mimeType = Some (takeWhile isDigit (drop 5 (drop i mimeType)))"
    using match_rate_first [of mimeType i] by blast
  then have "sampleRate_of mimeType = parseInt10 (takeWhile isDigit (drop 5 (drop i mimeType)))"
    by (simp add: sampleRate_of_def)
  with a show "sampleRate_of mimeType =
      decimal_value (map digitValue (takeWhile isDigit (drop 5 (drop i mimeType))))"
    by (simp only: parseInt10_exact)
next
  assume "\<forall>j<length mimeType. \<not> has_rate_at mimeType j"
  then show "sampleRate_of mimeType = 24000"
    using match_rate_none [of mimeType] by (simp add: sampleRate_of_def)
next
  assume "tts_audio audioData (Some mimeType) = Played wavBlob"
  from tts_audio_Played [OF this]
  show "\<exists>pcm16. pcmToWav pcm16 (sampleRate_of mimeType) = Inr wavBlob"
    by auto
qed

theorem sampleRate_of_mimeType_witness:
  "has_rate_at (js ''audio/L16;rate=16000'') 10 \<and>
   decimal_value (map digitValue (takeWhile isDigit (drop 5 (drop 10 (js ''audio/L16;rate=16000''))))) =
     16000 \<and>
   sampleRate_of (js ''audio/L16;rate=16000'') = 16000 \<and>
   sampleRate_of (js ''audio/L16'') = 24000 \<and>
   (\<exists>pcm16. pcmToWav pcm16 (sampleRate_of (js ''audio/L16;rate=16000'')) =
      Inr (Blob (wav_bytes [0, 32767] 16000) (js ''audio/wav'')))"
proof -
  have a: "has_rate_at (js ''audio/L16;rate=16000'') 10"
    by (simp add: has_rate_at_def js_def isDigit_def)
  have b: "\<forall>j<10. \<not> has_rate_at (js ''audio/L16;rate=16000'') j"
  proof (intro allI impI)
    fix j :: nat
    assume "j < 10"
    then consider "j = 0" | "j = 1" | "j = 2" | "j = 3" | "j = 4" | "j = 5" | "j = 6"
      | "j = 7" | "j = 8" | "j = 9"
      by atomize_elim presburger
    then show "\<not> has_rate_at (js ''audio/L16;rate=16000'') j"
      by cases (simp_all add: has_rate_at_def js_def)
  qed
  have c: "\<forall>j<length (js ''audio/L16''). \<not> has_rate_at (js ''audio/L16'') j"
  proof (intro allI impI)
    fix j :: nat
    assume "j < length (js ''audio/L16'')"
    then have "j < 9" by (simp add: js_def)
    then consider "j = 0" | "j = 1" | "j = 2" | "j = 3" | "j = 4" | "j = 5" | "j = 6"
      | "j = 7" | "j = 8"
      by atomize_elim presburger
    then show "\<not> has_rate_at (js ''audio/L16'') j"
      by cases (simp_all add: has_rate_at_def js_def)
  qed
  have "takeWhile isDigit (drop 5 (drop 10 (js ''audio/L16;rate=16000''))) = js ''16000''"
    by (simp add: js_def isDigit_def)
  moreover have "decimal_value (map digitValue (js ''16000'')) = 16000"
    unfolding mathInt_decimal_value [symmetric] by (simp add: mathInt_def js_def)
  ultimately have d: "decimal_value (map digitValue
      (takeWhile isDigit (drop 5 (drop 10 (js ''audio/L16;rate=16000''))))) = 16000"
    by (simp only:)
  then have e: "decimal_value (map digitValue
      (takeWhile isDigit (drop 5 (drop 10 (js ''audio/L16;rate=16000''))))) \<le> 2 ^ 53"
    by (simp only:) simp
  note t1 = sampleRate_of_mimeType [of "js ''audio/L16;rate=16000''" 10
      "Some (js ''AAD/fw=='')" "Blob (wav_bytes [0, 32767] 16000) (js ''audio/wav'')"]
  note t2 = sampleRate_of_mimeType [of "js ''audio/L16''" 0]
  from t1 a b e have "sampleRate_of (js ''audio/L16;rate=16000'') =
      decimal_value (map digitValue
        (takeWhile isDigit (drop 5 (drop 10 (js ''audio/L16;rate=16000'')))))"
    by blast
  with d have r1: "sampleRate_of (js ''audio/L16;rate=16000'') = 16000"
    by (simp only:)
  from t2 c have r2: "sampleRate_of (js ''audio/L16'') = 24000"
    by blast
  from t1 tts_audio_example
  have r3: "\<exists>pcm16. pcmToWav pcm16 (sampleRate_of (js ''audio/L16;rate=16000'')) =
      Inr (Blob (wav_bytes [0, 32767] 16000) (js ''audio/wav''))"
    by blast
  from a d r1 r2 r3 show ?thesis by blast
qed

text \<open>
  The digits of \<open>audio/L16;rate=9007199254740993\<close> denote \<open>2 ^ 53 + 1\<close>, which no Number
  is: \<open>parseInt\<close> returns \<open>2 ^ 53\<close>, and that is the sample rate the encoder gets.
\<close>

theorem sampleRate_of_mimeType_counterexample:
  "decimal_value (map digitValue (js ''9007199254740993'')) = 9007199254740993 \<and>
   sampleRate_of (js ''audio/L16;rate=9007199254740993'') = 9007199254740992 \<and>
   sampleRate_of (js ''audio/L16;rate=9007199254740993'') \<noteq>
     decimal_value (map digitValue (js ''9007199254740993''))"
  by (simp add: sampleRate_of_rounds decimal_value_rounds)

text \<open>
  Claim C8. The encoder is deterministic and leaves its input alone: run on any two
  heaps in which its argument refers to the same sample sequence, with the same sample
  rate, it returns byte-identical \<open>Blob\<close>s; and the heap after the call is the heap before
  it with one new buffer appended, so the sample sequence (and every other object that
  existed before) is unchanged.
\<close>

theorem heap_pcmToWav_pure:
  assumes "p1 < length h1" "h1 ! p1 = NumberArray samples"
    and "p2 < length h2" "h2 ! p2 = NumberArray samples"
  shows "\<exists>bytes.
     heap_pcmToWav h1 p1 sampleRate = Inr (h1 @ [ArrayBufferObj bytes], Blob bytes (js ''audio/wav'')) \<and>
     heap_pcmToWav h2 p2 sampleRate = Inr (h2 @ [ArrayBufferObj bytes], Blob bytes (js ''audio/wav'')) \<and>
     (h1 @ [ArrayBufferObj bytes]) ! p1 = NumberArray samples \<and>
     take (length h1) (h1 @ [ArrayBufferObj bytes]) = h1"
  using assms pcmToWav_wav_bytes [of samples sampleRate]
  by (intro exI [of _ "wav_bytes samples sampleRate"])
    (simp add: heap_pcmToWav_eq nth_append)

theorem heap_pcmToWav_pure_witness:
  "\<exists>bytes.
     heap_pcmToWav [NumberArray [7], NumberArray [0, 32767, - 32768, 1000]] 1 24000 =
       Inr ([NumberArray [7], NumberArray [0, 32767, - 32768, 1000], ArrayBufferObj bytes],
            Blob bytes (js ''audio/wav'')) \<and>
     heap_pcmToWav [NumberArray [0, 32767, - 32768, 1000], ArrayBufferObj [1, 2]] 0 24000 =
       Inr ([NumberArray [0, 32767, - 32768, 1000], ArrayBufferObj [1, 2], ArrayBufferObj bytes],
            Blob bytes (js ''audio/wav''))"
  using heap_pcmToWav_pure [of 1 "[NumberArray [7], NumberArray [0, 32767, - 32768, 1000]]"
      "[0, 32767, - 32768, 1000]" 0 "[NumberArray [0, 32767, - 32768, 1000], ArrayBufferObj [1, 2]]" 24000]
  by simp

text \<open>
  Claim C9. A sample outside the signed 16-bit range is neither refused nor clamped:
  the encoder returns normally, and the two bytes of the sample hold it reduced modulo
  \<open>2 ^ 16\<close> (read as signed, its two's complement wrap-around). Likewise the sample-rate
  field holds the sample rate reduced modulo \<open>2 ^ 32\<close>.
\<close>

theorem pcmToWav_wraps:
  assumes "i < length pcmData"
  shows "\<exists>bs. pcmToWav pcmData sampleRate = Inr (Blob bs (js ''audio/wav'')) \<and>
     getUint16 bs (44 + 2 * i) True = Inr (pcmData ! i mod 2 ^ 16) \<and>
     getInt16 bs (44 + 2 * i) True = Inr (ToInt16 (pcmData ! i)) \<and>
     getUint32 bs 24 True = Inr (sampleRate mod 2 ^ 32)"
  using pcmToWav_wav_bytes [of pcmData sampleRate] sample_unsigned [OF assms, of sampleRate]
    sample_signed [OF assms, of sampleRate] sample_rate_field [of pcmData sampleRate]
  by (intro exI [of _ "wav_bytes pcmData sampleRate"]) simp

theorem pcmToWav_wraps_witness:
  "(1 :: nat) < length [5, 40000, - 40000 :: int] \<and>
   (\<exists>bs. pcmToWav [5, 40000, - 40000] 4294967301 = Inr (Blob bs (js ''audio/wav'')) \<and>
      getUint16 bs 46 True = Inr 40000 \<and> getInt16 bs 46 True = Inr (- 25536) \<and>
      getUint32 bs 24 True = Inr 5)"
  using pcmToWav_wraps [of 1 "[5, 40000, - 40000]" 4294967301]
  by (auto simp add: ToInt16_def)

text \<open>
  Claim C10. \<open>base64ToArrayBuffer\<close> returns one byte for each code unit of the decoded
  string; \<open>new Int16Array\<close> throws a \<open>RangeError\<close> on a buffer of odd length; so the encoder
  is called only with whole samples: when a \<open>Blob\<close> is played, the decoded byte count is
  even and the encoder was given half as many samples, and when the decoded byte count
  is odd the \<open>RangeError\<close> is caught and the encoder is not called.
\<close>

theorem tts_audio_whole_samples:
  "(atob base64 = Inr binaryString \<longrightarrow>
      (\<exists>bytes. base64ToArrayBuffer base64 = Inr bytes \<and> length bytes = length binaryString \<and>
         (\<forall>i<length binaryString. bytes ! i = word_of_int (uint (binaryString ! i))))) \<and>
   (odd (length buffer) \<longrightarrow> new_Int16Array buffer = Inl RangeError) \<and>
   (tts_audio audioData mimeType = Played wavBlob \<longrightarrow>
      (\<exists>a m bytes pcm16. audioData = Some a \<and> mimeType = Some m \<and>
         base64ToArrayBuffer a = Inr bytes \<and> even (length bytes) \<and>
         new_Int16Array bytes = Inr pcm16 \<and> 2 * length pcm16 = length bytes \<and>
         pcmToWav pcm16 (sampleRate_of m) = Inr wavBlob)) \<and>
   (base64ToArrayBuffer a = Inr bytes \<and> odd (length bytes) \<and> a \<noteq> [] \<and>
      startsWith m (js ''audio/L16'') \<longrightarrow> tts_audio (Some a) (Some m) = Caught RangeError)"
proof (intro conjI impI)
  assume "atob base64 = Inr binaryString"
  then show "\<exists>bytes. base64ToArrayBuffer base64 = Inr bytes \<and> length bytes = length binaryString \<and>
         (\<forall>i<length binaryString. bytes ! i = word_of_int (uint (binaryString ! i)))"
    by (simp add: base64ToArrayBuffer_eq word_of_int_ToUint8)
next
  assume "odd (length buffer)"
  then show "new_Int16Array buffer = Inl RangeError"
    by (simp add: new_Int16Array_def odd_iff_mod_2_eq_one)
next
  assume "tts_audio audioData mimeType = Played wavBlob"
  then show "\<exists>a m bytes pcm16. audioData = Some a \<and> mimeType = Some m \<and>
         base64ToArrayBuffer a = Inr bytes \<and> even (length bytes) \<and>
         new_Int16Array bytes = Inr pcm16 \<and> 2 * length pcm16 = length bytes \<and>
         pcmToWav pcm16 (sampleRate_of m) = Inr wavBlob"
    by (rule tts_audio_Played)
next
  assume "base64ToArrayBuffer a = Inr bytes \<and> odd (length bytes) \<and> a \<noteq> [] \<and>
      startsWith m (js ''audio/L16'')"
  then show "tts_audio (Some a) (Some m) = Caught RangeError"
    using tts_audio_odd by blast
qed

theorem tts_audio_whole_samples_witness:
  "atob (js ''AAAA'') = Inr [0, 0, 0] \<and>
   base64ToArrayBuffer (js ''AAAA'') = Inr [0, 0, 0] \<and>
   odd (length [0, 0, 0 :: byte]) \<and>
   new_Int16Array [0, 0, 0] = Inl RangeError \<and>
   tts_audio (Some (js ''AAAA'')) (Some (js ''audio/L16;rate=16000'')) = Caught RangeError \<and>
   tts_audio (Some (js ''AAD/fw=='')) (Some (js ''audio/L16;rate=16000'')) =
     Played (Blob (wav_bytes [0, 32767] 16000) (js ''audio/wav'')) \<and>
   (\<exists>bytes pcm16. base64ToArrayBuffer (js ''AAD/fw=='') = Inr bytes \<and> even (length bytes) \<and>
      new_Int16Array bytes = Inr pcm16 \<and> 2 * length pcm16 = length bytes \<and>
      pcmToWav pcm16 (sampleRate_of (js ''audio/L16;rate=16000'')) =
        Inr (Blob (wav_bytes [0, 32767] 16000) (js ''audio/wav'')))"
proof -
  have s: "startsWith (js ''audio/L16;rate=16000'') (js ''audio/L16'')" "js ''AAAA'' \<noteq> []"
    by (simp_all add: js_def startsWith_def)
  show ?thesis
    using tts_audio_whole_samples [of "js ''AAAA''" "[0, 0, 0]" "[0, 0, 0]"
        "Some (js ''AAD/fw=='')" "Some (js ''audio/L16;rate=16000'')"
        "Blob (wav_bytes [0, 32767] 16000) (js ''audio/wav'')"
        "js ''AAAA''" "[0, 0, 0]" "js ''audio/L16;rate=16000''"]
      atob_AAAA base64ToArrayBuffer_odd_example tts_audio_example s
    by simp
qed

end
